theory Spec2Isabelle
  imports Complex_Main "HOL-Library.Sublist" "HOL-Library.Product_Lexorder"
begin

section \<open>Strings\<close>

text \<open>
  Python strings are modelled as \<^typ>\<open>string\<close> (lists of characters). Every
  operation of the program works position by position, so the element type plays no role.
\<close>

definition gap :: char where
  "gap = CHR ''_''"

text \<open>\<^verbatim>\<open>p in s\<close> on strings: \<open>p\<close> occurs in \<open>s\<close> as a contiguous substring.\<close>

fun contains :: "string \<Rightarrow> string \<Rightarrow> bool" where
  "contains [] p = (p = [])"
| "contains (c # cs) p = (prefix p (c # cs) \<or> contains cs p)"

text \<open>
  \<^verbatim>\<open>s.replace(old, new)\<close>: scanning from the left, every non-overlapping occurrence of
  \<open>old\<close> is replaced by \<open>new\<close>. For the empty pattern, \<open>new\<close> is inserted before every
  character and at the end.
\<close>

function str_replace :: "string \<Rightarrow> string \<Rightarrow> string \<Rightarrow> string" where
  "str_replace [] old new = (if old = [] then new else [])"
| "str_replace (c # cs) old new =
     (if old = [] then new @ c # str_replace cs old new
      else if prefix old (c # cs) then new @ str_replace (drop (length old) (c # cs)) old new
      else c # str_replace cs old new)"
  by pat_completeness auto
termination
  by (relation "measure (\<lambda>(s, old, new). length s)") auto

text \<open>\<^verbatim>\<open>s.lstrip('_')\<close> removes the leading run of gap markers; \<^verbatim>\<open>s[::-1]\<close> is \<^const>\<open>rev\<close>.\<close>

definition lstrip :: "string \<Rightarrow> string" where
  "lstrip s = dropWhile (\<lambda>c. c = gap) s"

text \<open>\<^verbatim>\<open>s[i:j]\<close> for indices \<open>0 \<le> i\<close>, \<open>0 \<le> j\<close>: empty when \<open>j \<le> i\<close>.\<close>

definition slice :: "nat \<Rightarrow> nat \<Rightarrow> string \<Rightarrow> string" where
  "slice i j s = drop i (take j s)"

section \<open>Hamming scorer\<close>

text \<open>\<^verbatim>\<open>sum(1 for x,y in zip(s,t) if x != y)\<close>\<close>

definition hamming :: "string \<Rightarrow> string \<Rightarrow> nat" where
  "hamming s t = sum_list (map (\<lambda>(x, y). 1) (filter (\<lambda>(x, y). x \<noteq> y) (zip s t)))"

section \<open>Rule stores and rule application\<close>

text \<open>
  A rule is a pair (input pattern, output pattern). The inner dictionary of a store maps
  rules to frequencies; \<^verbatim>\<open>max\<close> returns the first maximal element in iteration order,
  so the dictionary is kept as an association list in insertion order.
\<close>

type_synonym rule = "string \<times> string"
type_synonym rules = "(rule \<times> int) list"
type_synonym store = "string \<rightharpoonup> rules"

text \<open>\<^verbatim>\<open>[(x[0],x[1],y) for x,y in rules.items() if x[0] in base]\<close>\<close>

definition applicable :: "rules \<Rightarrow> string \<Rightarrow> (string \<times> string \<times> int) list" where
  "applicable rs base =
     map (\<lambda>(x, y). (fst x, snd x, y)) (filter (\<lambda>(x, y). contains base (fst x)) rs)"

text \<open>
  \<^verbatim>\<open>max(xs, key = k)\<close> on a non-empty list \<open>b # xs\<close>: the running best is replaced
  only by an element whose key is strictly greater.
\<close>

fun max_by :: "('a \<Rightarrow> 'k::linorder) \<Rightarrow> 'a \<Rightarrow> 'a list \<Rightarrow> 'a" where
  "max_by key b [] = b"
| "max_by key b (x # xs) = max_by key (if key b < key x then x else b) xs"

text \<open>\<^verbatim>\<open>lambda x: (len(x[0]), x[2], len(x[1]))\<close>, compared lexicographically.\<close>

definition suffix_key :: "string \<times> string \<times> int \<Rightarrow> nat \<times> int \<times> nat" where
  "suffix_key x = (length (fst x), snd (snd x), length (fst (snd x)))"

text \<open>\<^verbatim>\<open>lambda x: (x[2])\<close>\<close>

definition prefix_key :: "string \<times> string \<times> int \<Rightarrow> int" where
  "prefix_key x = snd (snd x)"

definition best_suffix_rule :: "rules \<Rightarrow> string \<Rightarrow> (string \<times> string \<times> int) option" where
  "best_suffix_rule rs base =
     (case applicable rs base of [] \<Rightarrow> None | r # rest \<Rightarrow> Some (max_by suffix_key r rest))"

definition best_prefix_rule :: "rules \<Rightarrow> string \<Rightarrow> (string \<times> string \<times> int) option" where
  "best_prefix_rule rs base =
     (case applicable rs base of [] \<Rightarrow> None | r # rest \<Rightarrow> Some (max_by prefix_key r rest))"

text \<open>The body of \<^verbatim>\<open>if msd in allsrules:\<close>, for the rules \<open>rs\<close> registered under the MSD.\<close>

definition suffix_step :: "rules \<Rightarrow> string \<Rightarrow> string" where
  "suffix_step rs base =
     (case best_suffix_rule rs base of
        None \<Rightarrow> base
      | Some bestrule \<Rightarrow> str_replace base (fst bestrule) (fst (snd bestrule)))"

text \<open>The body of \<^verbatim>\<open>if msd in allprules:\<close>.\<close>

definition prefix_step :: "rules \<Rightarrow> string \<Rightarrow> string" where
  "prefix_step rs base =
     (case best_prefix_rule rs base of
        None \<Rightarrow> base
      | Some bestrule \<Rightarrow> str_replace base (fst bestrule) (fst (snd bestrule)))"

definition apply_best_rule :: "string \<Rightarrow> string \<Rightarrow> store \<Rightarrow> store \<Rightarrow> string" where
  "apply_best_rule lemma msd allprules allsrules =
     (let base = ''<'' @ lemma @ ''>'' in
      if allprules msd = None \<and> allsrules msd = None then lemma
      else
        let base = (case allsrules msd of None \<Rightarrow> base | Some rs \<Rightarrow> suffix_step rs base);
            base = (case allprules msd of None \<Rightarrow> base | Some rs \<Rightarrow> prefix_step rs base);
            base = str_replace base ''<'' [];
            base = str_replace base ''>'' []
        in base)"

section \<open>Python numbers\<close>

text \<open>
  The costs of the aligner are Python numbers: \<^verbatim>\<open>int\<close> (unbounded, exact) or \<^verbatim>\<open>float\<close>
  (IEEE 754 binary64). A float is kept as \<open>PFloat m e\<close>, the value \<open>m * 2^e\<close> with a
  53-bit significand, \<open>2^52 \<le> |m| < 2^53\<close>; zero is \<open>PFloat 0 0\<close>. The exponent range,
  infinities, NaN and the sign of zero are not modelled.
\<close>

datatype pynum = PInt int | PFloat int int

text \<open>The number of binary digits of a positive integer.\<close>

function bits :: "int \<Rightarrow> int" where
  "bits n = (if n \<le> 0 then 0 else 1 + bits (n div 2))"
  by pat_completeness auto
termination
  by (relation "measure nat") auto

text \<open>
  \<open>round53 s e\<close> is the binary64 nearest to the exact value \<open>s * 2^e\<close>, ties going to the
  even significand: a significand of at most 53 bits is kept (shifted to exactly 53 bits),
  a longer one loses its low \<open>k\<close> bits and is rounded on them.
\<close>

definition round53 :: "int \<Rightarrow> int \<Rightarrow> int \<times> int" where
  "round53 s e =
     (if s = 0 then (0, 0)
      else
        let b = bits \<bar>s\<bar> in
        if b \<le> 53 then (s * 2 ^ nat (53 - b), e - (53 - b))
        else
          let k = b - 53;
              q = \<bar>s\<bar> div 2 ^ nat k;
              r = \<bar>s\<bar> mod 2 ^ nat k;
              h = 2 ^ nat (k - 1);
              q' = (if r < h then q else if h < r then q + 1
                    else if even q then q else q + 1)
          in if q' = 2 ^ 53 then (sgn s * 2 ^ 52, e + k + 1) else (sgn s * q', e + k))"

text \<open>The exact value of a number as (significand, exponent); an int has exponent 0.\<close>

fun exact :: "pynum \<Rightarrow> int \<times> int" where
  "exact (PInt n) = (n, 0)"
| "exact (PFloat m e) = (m, e)"

text \<open>\<^verbatim>\<open>float(x)\<close>, the conversion applied to an int operand next to a float operand.\<close>

fun to_float :: "pynum \<Rightarrow> int \<times> int" where
  "to_float (PInt n) = round53 n 0"
| "to_float (PFloat m e) = (m, e)"

text \<open>Float addition: the exact sum, rounded once.\<close>

definition float_add :: "int \<times> int \<Rightarrow> int \<times> int \<Rightarrow> pynum" where
  "float_add x y =
     (case x of (m1, e1) \<Rightarrow> case y of (m2, e2) \<Rightarrow>
        let e = min e1 e2 in
        case round53 (m1 * 2 ^ nat (e1 - e) + m2 * 2 ^ nat (e2 - e)) e of
          (m, e') \<Rightarrow> PFloat m e')"

text \<open>\<^verbatim>\<open>x + y\<close> and \<^verbatim>\<open>x - y\<close>: exact on two ints, float arithmetic otherwise.\<close>

fun padd :: "pynum \<Rightarrow> pynum \<Rightarrow> pynum" where
  "padd (PInt a) (PInt b) = PInt (a + b)"
| "padd x y = float_add (to_float x) (to_float y)"

fun psub :: "pynum \<Rightarrow> pynum \<Rightarrow> pynum" where
  "psub (PInt a) (PInt b) = PInt (a - b)"
| "psub x y = (case to_float y of (m, e) \<Rightarrow> float_add (to_float x) (- m, e))"

text \<open>\<^verbatim>\<open>x < y\<close> compares the exact values, also between an int and a float.\<close>

definition pless :: "pynum \<Rightarrow> pynum \<Rightarrow> bool" where
  "pless x y =
     (case exact x of (m1, e1) \<Rightarrow> case exact y of (m2, e2) \<Rightarrow>
        let e = min e1 e2 in m1 * 2 ^ nat (e1 - e) < m2 * 2 ^ nat (e2 - e))"

text \<open>The value of a number as a rational, for stating results.\<close>

definition pyval :: "pynum \<Rightarrow> rat" where
  "pyval x =
     (case exact x of (m, e) \<Rightarrow>
        if 0 \<le> e then of_int m * 2 ^ nat e else of_int m / 2 ^ nat (- e))"

text \<open>
  The float literals of the source: \<^verbatim>\<open>1.0\<close>, and \<^verbatim>\<open>1.1\<close>, which denotes the binary64
  nearest to 11/10, \<open>4953959590107546 * 2^-52\<close> (lemma \<open>float_1_1_nearest\<close>).
\<close>

definition float_1_0 :: pynum where
  "float_1_0 = PFloat 4503599627370496 (- 52)"

definition float_1_1 :: pynum where
  "float_1_1 = PFloat 4953959590107546 (- 52)"

section \<open>Edit-distance aligner\<close>

text \<open>\<^verbatim>\<open>lrec\<close> returns a 5-tuple (aligned lemma, aligned form, '', '', cost).\<close>

type_synonym answer = "string \<times> string \<times> string \<times> string \<times> pynum"

text \<open>The memo table of \<^verbatim>\<open>memolrec\<close>, keyed on the pair of remaining strings.\<close>

type_synonym cache = "string \<times> string \<rightharpoonup> string \<times> string \<times> pynum"

text \<open>\<^verbatim>\<open>lambda x: x[4]\<close>\<close>

definition cost_of :: "answer \<Rightarrow> pynum" where
  "cost_of x = snd (snd (snd (snd x)))"

text \<open>\<^verbatim>\<open>min((r1, r2, r3), key = lambda x: x[4])\<close>: the first element of least cost.\<close>

definition min3_by_cost :: "answer \<Rightarrow> answer \<Rightarrow> answer \<Rightarrow> answer" where
  "min3_by_cost r1 r2 r3 =
     (let best = r1;
          best = (if pless (cost_of r2) (cost_of best) then r2 else best);
          best = (if pless (cost_of r3) (cost_of best) then r3 else best)
      in best)"

text \<open>
  The decorated \<^verbatim>\<open>lrec\<close>. \<open>lrec_body\<close> is the function under the decorator; its
  recursive calls go through the wrapper \<open>lrec\<close> (\<^verbatim>\<open>wrap\<close> in \<^verbatim>\<open>memolrec\<close>), which
  threads the cache. The three recursive calls are evaluated in order, each seeing the
  cache left by the previous one. On a miss the wrapper stores the part of the answer beyond
  the caller's \<open>sp\<close>, \<open>tp\<close> and \<open>cost\<close> (\<^verbatim>\<open>res[4] - cost\<close>), and then answers from the
  stored entry (\<^verbatim>\<open>cost + cache[(sr,tr)][2]\<close>). The exhausted-side cases add
  \<^verbatim>\<open>len(trem)\<close> and \<^verbatim>\<open>len(srem)\<close>, which are ints; \<^verbatim>\<open>addcost = 0\<close> is the int 0.
\<close>

function (sequential)
  lrec_body :: "pynum \<Rightarrow> pynum \<Rightarrow> pynum \<Rightarrow> cache \<Rightarrow>
                string \<Rightarrow> string \<Rightarrow> string \<Rightarrow> string \<Rightarrow> pynum \<Rightarrow> answer \<times> cache"
  and lrec :: "pynum \<Rightarrow> pynum \<Rightarrow> pynum \<Rightarrow> cache \<Rightarrow>
                string \<Rightarrow> string \<Rightarrow> string \<Rightarrow> string \<Rightarrow> pynum \<Rightarrow> answer \<times> cache"
where
  "lrec_body inscost delcost substcost cache spast tpast [] trem cost =
     ((spast @ replicate (length trem) gap, tpast @ trem, [], [],
       padd cost (PInt (int (length trem)))), cache)"
| "lrec_body inscost delcost substcost cache spast tpast (a # srem) [] cost =
     ((spast @ (a # srem), tpast @ replicate (length (a # srem)) gap, [], [],
       padd cost (PInt (int (length (a # srem))))), cache)"
| "lrec_body inscost delcost substcost cache spast tpast (a # srem) (b # trem) cost =
     (let addcost = (if a \<noteq> b then substcost else PInt 0) in
      case lrec inscost delcost substcost cache
             (spast @ [a]) (tpast @ [b]) srem trem (padd cost addcost) of
        (r1, cache1) \<Rightarrow>
      case lrec inscost delcost substcost cache1
             (spast @ [gap]) (tpast @ [b]) (a # srem) trem (padd cost inscost) of
        (r2, cache2) \<Rightarrow>
      case lrec inscost delcost substcost cache2
             (spast @ [a]) (tpast @ [gap]) srem (b # trem) (padd cost delcost) of
        (r3, cache3) \<Rightarrow>
      (min3_by_cost r1 r2 r3, cache3))"
| "lrec inscost delcost substcost cache sp tp sr tr cost =
     (case (case cache (sr, tr) of
              None \<Rightarrow>
                (case lrec_body inscost delcost substcost cache sp tp sr tr cost of
                   (res, cache1) \<Rightarrow>
                     (let entry = (drop (length sp) (fst res), drop (length tp) (fst (snd res)),
                                   psub (cost_of res) cost)
                      in (entry, cache1((sr, tr) \<mapsto> entry))))
            | Some entry \<Rightarrow> (entry, cache)) of
        ((a, b, d), cache') \<Rightarrow> ((sp @ a, tp @ b, [], [], padd cost d), cache'))"
  by pat_completeness auto
termination
  by (relation "measure (\<lambda>x. case x of
        Inl (ic, dc, sc, c, sp, tp, sr, tr, cost) \<Rightarrow> 2 * (length sr + length tr)
      | Inr (ic, dc, sc, c, sp, tp, sr, tr, cost) \<Rightarrow> 2 * (length sr + length tr) + 1)") auto

declare lrec.simps [simp del]

text \<open>
  \<^verbatim>\<open>levenshtein(s, t, inscost, delcost, substcost)\<close>, starting from an empty cache and the
  int cost 0.
\<close>

definition levenshtein ::
  "string \<Rightarrow> string \<Rightarrow> pynum \<Rightarrow> pynum \<Rightarrow> pynum \<Rightarrow> string \<times> string \<times> pynum" where
  "levenshtein s t inscost delcost substcost =
     (case lrec inscost delcost substcost Map.empty [] [] s t (PInt 0) of
        (answer, cache) \<Rightarrow> (fst answer, fst (snd answer), cost_of answer))"



section \<open>Segmenter and rule extractor\<close>

text \<open>
  \<^verbatim>\<open>alignprs\<close>. The aligner is called with the default insertion and deletion costs
  \<^verbatim>\<open>1.0\<close> and the substitution cost \<^verbatim>\<open>1.1\<close>, all floats. The slices of the aligned form
  use \<^verbatim>\<open>len(alemma)\<close>, as in the source. The bound \<^verbatim>\<open>len(alemma)-tspace\<close> is never
  negative, because the two aligned strings have the same length (lemma
  \<open>levenshtein_aligned\<close> below), so natural-number subtraction is exact.
\<close>

definition alignprs ::
  "string \<Rightarrow> string \<Rightarrow> string \<times> string \<times> string \<times> string \<times> string \<times> string" where
  "alignprs lemma form =
     (let al = levenshtein lemma form float_1_0 float_1_0 float_1_1;
          alemma = fst al;
          aform = fst (snd al);
          lspace = max (length alemma - length (lstrip alemma))
                       (length aform - length (lstrip aform));
          tspace = max (length (rev alemma) - length (lstrip (rev alemma)))
                       (length (rev aform) - length (lstrip (rev aform)))
      in (slice 0 lspace alemma,
          slice lspace (length alemma - tspace) alemma,
          drop (length alemma - tspace) alemma,
          slice 0 lspace aform,
          slice lspace (length alemma - tspace) aform,
          drop (length alemma - tspace) aform))"

text \<open>
  \<^verbatim>\<open>generate_rules\<close>: the pairs \<^verbatim>\<open>(ins[i:], outs[i:])\<close> for \<open>i\<close> below the shorter length,
  then gap markers removed on both sides. The result is a Python set.
\<close>

definition generate_rules :: "string \<Rightarrow> string \<Rightarrow> rule set" where
  "generate_rules ins outs =
     (\<lambda>x. (str_replace (fst x) ''_'' [], str_replace (snd x) ''_'' [])) `
       set (map (\<lambda>i. (drop i ins, drop i outs)) [0 ..< min (length ins) (length outs)])"

text \<open>
  \<^verbatim>\<open>prefix_suffix_rules_get\<close> returns (prefix rules, suffix rules). The test
  \<^verbatim>\<open>len(lp) >= 0 or len(fp) >= 0\<close> is kept as written.
\<close>

definition prefix_suffix_rules_get :: "string \<Rightarrow> string \<Rightarrow> rule set \<times> rule set" where
  "prefix_suffix_rules_get lemma form =
     (case alignprs lemma form of
        (lp, lr, ls, fp, fr, fs) \<Rightarrow>
          let srules = generate_rules (lr @ ls @ ''>'') (fr @ fs @ ''>'');
              prules = (if 0 \<le> length lp \<or> 0 \<le> length fp
                        then generate_rules (''<'' @ lp) (''<'' @ fp) else {})
          in (prules, srules))"

section \<open>Rule store accumulation\<close>

text \<open>
  The counting loop of \<^verbatim>\<open>main\<close> for one direction and one training pair. The rule set is
  iterated in some order \<open>order\<close> (a duplicate-free enumeration of the set); a new rule is
  appended with count 1, a known rule is incremented in place.
\<close>

fun count_rule :: "rules \<Rightarrow> rule \<Rightarrow> rules" where
  "count_rule [] r = [(r, 1)]"
| "count_rule ((k, v) # rs) r = (if k = r then (k, v + 1) # rs else (k, v) # count_rule rs r)"

definition accumulate :: "store \<Rightarrow> string \<Rightarrow> rule list \<Rightarrow> store" where
  "accumulate storage msd order =
     (let storage = (if storage msd = None \<and> 0 < length order then storage(msd \<mapsto> [])
                     else storage)
      in case storage msd of
           None \<Rightarrow> storage
         | Some rs \<Rightarrow> storage(msd \<mapsto> foldl count_rule rs order))"

section \<open>Replacement of the first occurrence only\<close>

text \<open>
  The replacement primitive as the specification words it: find the index of the first
  occurrence of the pattern, then reassemble the part before it, the new text and the part
  after it. It is used only for comparison with \<^const>\<open>str_replace\<close>.
\<close>

fun find_first :: "string \<Rightarrow> string \<Rightarrow> nat option" where
  "find_first [] p = (if p = [] then Some 0 else None)"
| "find_first (c # cs) p =
     (if prefix p (c # cs) then Some 0 else map_option Suc (find_first cs p))"

definition replace_first :: "string \<Rightarrow> string \<Rightarrow> string \<Rightarrow> string" where
  "replace_first s old new =
     (case find_first s old of
        None \<Rightarrow> s
      | Some i \<Rightarrow> take i s @ new @ drop (i + length old) s)"

section \<open>Auxiliary notions for the proofs\<close>

text \<open>A string with its gap markers removed.\<close>

abbreviation ungap :: "string \<Rightarrow> string" where
  "ungap s \<equiv> filter (\<lambda>c. c \<noteq> gap) s"

text \<open>
  \<open>aligned sr tr a b\<close>: the pair \<open>(a, b)\<close> is an alignment of the remaining strings
  \<open>sr\<close> and \<open>tr\<close>. The two sides have the same length; removing the gaps gives back a
  gap-free \<open>sr\<close> or \<open>tr\<close>; and when both are gap-free no column is a gap on both sides.
\<close>

definition aligned :: "string \<Rightarrow> string \<Rightarrow> string \<Rightarrow> string \<Rightarrow> bool" where
  "aligned sr tr a b \<longleftrightarrow>
     length a = length b \<and>
     (gap \<notin> set sr \<longrightarrow> ungap a = sr) \<and>
     (gap \<notin> set tr \<longrightarrow> ungap b = tr) \<and>
     (gap \<notin> set sr \<longrightarrow> gap \<notin> set tr \<longrightarrow> (\<forall>(x, y) \<in> set (zip a b). x \<noteq> gap \<or> y \<noteq> gap))"

text \<open>Every cache entry is an alignment of its key.\<close>

definition cache_aligned :: "cache \<Rightarrow> bool" where
  "cache_aligned c \<longleftrightarrow> (\<forall>sr tr a b d. c (sr, tr) = Some (a, b, d) \<longrightarrow> aligned sr tr a b)"

text \<open>
  For integer costs: the alignment of two remaining strings and its cost, computed
  without any accumulated prefix, in exact arithmetic. \<open>place\<close> puts such a fragment
  behind a prefix and an accumulated integer cost.
\<close>

type_synonym 'a frag = "string \<times> string \<times> 'a"




definition place :: "string \<Rightarrow> string \<Rightarrow> int \<Rightarrow> int frag \<Rightarrow> answer" where
  "place sp tp cost f = (sp @ fst f, tp @ fst (snd f), [], [], PInt (cost + snd (snd f)))"



text \<open>
  The numbers \<^verbatim>\<open>lspace\<close> and \<^verbatim>\<open>tspace\<close> of \<open>alignprs\<close> as lengths of leading and trailing
  gap runs.
\<close>

definition lspace_of :: "string \<Rightarrow> string \<Rightarrow> nat" where
  "lspace_of a b =
     max (length (takeWhile (\<lambda>c. c = gap) a)) (length (takeWhile (\<lambda>c. c = gap) b))"

definition tspace_of :: "string \<Rightarrow> string \<Rightarrow> nat" where
  "tspace_of a b =
     max (length (takeWhile (\<lambda>c. c = gap) (rev a))) (length (takeWhile (\<lambda>c. c = gap) (rev b)))"

section \<open>Properties of the Hamming scorer\<close>

lemma hamming_length_filter:
  "hamming s t = length (filter (\<lambda>(x, y). x \<noteq> y) (zip s t))"
  by (simp add: hamming_def sum_list_map_filter' split_def sum_list_triv)

text \<open>
  Claim C10. \<open>hamming\<close> is total: for strings of any lengths it returns the number of
  positions below the shorter length at which the two strings differ; the excess
  characters of the longer string are ignored.
\<close>

theorem hamming_counts_common_positions:
  "hamming s t = card {i. i < min (length s) (length t) \<and> s ! i \<noteq> t ! i}"
proof -
  have "{i. i < length (zip s t) \<and> (\<lambda>(x, y). x \<noteq> y) (zip s t ! i)}
      = {i. i < min (length s) (length t) \<and> s ! i \<noteq> t ! i}"
    by auto
  then show ?thesis
    by (simp only: hamming_length_filter length_filter_conv_card)
qed

section \<open>Properties of rule application\<close>

text \<open>
  Claim C7. When the MSD is a key of neither the prefix store nor the suffix store,
  \<open>apply_best_rule\<close> returns the lemma unchanged.
\<close>

theorem apply_best_rule_unseen_msd:
  "msd \<notin> dom allprules \<Longrightarrow> msd \<notin> dom allsrules \<Longrightarrow>
   apply_best_rule lemma msd allprules allsrules = lemma"
  by (simp add: apply_best_rule_def domIff)

theorem apply_best_rule_unseen_msd_witness:
  "''UNSEEN'' \<notin> dom [''V;PST'' \<mapsto> [((''<'', ''<''), 1::int)]] \<and>
   ''UNSEEN'' \<notin> dom [''V;PST'' \<mapsto> [((''>'', ''ed>''), 1::int)]] \<and>
   apply_best_rule ''cat'' ''UNSEEN''
     [''V;PST'' \<mapsto> [((''<'', ''<''), 1)]] [''V;PST'' \<mapsto> [((''>'', ''ed>''), 1)]] = ''cat''"
  using apply_best_rule_unseen_msd [of "''UNSEEN''"
      "[''V;PST'' \<mapsto> [((''<'', ''<''), 1)]]" "[''V;PST'' \<mapsto> [((''>'', ''ed>''), 1)]]" "''cat''"]
  by simp

section \<open>Rule selection\<close>

lemma contains_iff_sublist: "contains s p \<longleftrightarrow> sublist p s"
  by (induction s) (auto simp: sublist_Cons_right)

lemma max_by_in: "max_by key b xs \<in> set (b # xs)"
  by (induction xs arbitrary: b) auto

lemma max_by_ge_start: "key b \<le> key (max_by key b xs)"
proof (induction xs arbitrary: b)
  case Nil
  show ?case by simp
next
  case (Cons y ys)
  show ?case
  proof (cases "key b < key y")
    case True
    have "key y \<le> key (max_by key y ys)" by (rule Cons.IH)
    with True show ?thesis by simp
  next
    case False
    with Cons.IH [of b] show ?thesis by simp
  qed
qed

lemma max_by_ge: "x \<in> set (b # xs) \<Longrightarrow> key x \<le> key (max_by key b xs)"
proof (induction xs arbitrary: b)
  case Nil
  then show ?case by simp
next
  case (Cons y ys)
  let ?b' = "if key b < key y then y else b"
  have b': "key b \<le> key ?b'" "key y \<le> key ?b'" by auto
  have top: "key ?b' \<le> key (max_by key ?b' ys)" by (rule max_by_ge_start)
  from Cons.prems consider "x = b" | "x = y" | "x \<in> set ys" by auto
  then show ?case
  proof cases
    case 1
    with b'(1) top have "key x \<le> key (max_by key ?b' ys)" by (blast intro: order_trans)
    then show ?thesis by simp
  next
    case 2
    with b'(2) top have "key x \<le> key (max_by key ?b' ys)" by (blast intro: order_trans)
    then show ?thesis by simp
  next
    case 3
    then have "key x \<le> key (max_by key ?b' ys)"
      by (intro Cons.IH) simp
    then show ?thesis by simp
  qed
qed

lemma max_by_first: "\<forall>x \<in> set xs. \<not> key b < key x \<Longrightarrow> max_by key b xs = b"
  by (induction xs) auto

lemma set_applicable:
  "set (applicable rs base) = {(p, q, f). ((p, q), f) \<in> set rs \<and> sublist p base}"
  by (auto simp: applicable_def contains_iff_sublist image_iff)

lemma lex3_le:
  "((a::nat, b::int, c::nat) \<le> (a', b', c')) \<longleftrightarrow>
     (a < a' \<or> (a = a' \<and> (b < b' \<or> (b = b' \<and> c \<le> c'))))"
  by (auto simp: less_eq_prod_def)

text \<open>
  Claim C8. Whenever some suffix rule registered for the MSD has an input pattern that is
  a substring of \<open>base\<close>, the suffix step selects a registered, applicable rule whose
  triple (length of input pattern, frequency, length of output pattern) is
  lexicographically at least that of every registered applicable rule, and replaces with
  that rule. In particular no applicable rule has a longer input pattern than the
  selected one.
\<close>

theorem suffix_rule_selection_maximal:
  assumes "((p, q), f) \<in> set rs" and "sublist p base"
  shows "\<exists>p' q' f'. best_suffix_rule rs base = Some (p', q', f') \<and>
           ((p', q'), f') \<in> set rs \<and> sublist p' base \<and>
           (length p < length p' \<or>
            (length p = length p' \<and> (f < f' \<or> (f = f' \<and> length q \<le> length q')))) \<and>
           suffix_step rs base = str_replace base p' q'"
proof -
  from assms have mem: "(p, q, f) \<in> set (applicable rs base)"
    by (simp add: set_applicable)
  then obtain r rest where ap: "applicable rs base = r # rest"
    by (cases "applicable rs base") auto
  define best where "best = max_by suffix_key r rest"
  obtain p' q' f' where best: "best = (p', q', f')"
    by (cases best) auto
  have sel: "best_suffix_rule rs base = Some (p', q', f')"
    by (simp add: best_suffix_rule_def ap best_def [symmetric] best)
  have "best \<in> set (applicable rs base)"
    unfolding ap best_def by (rule max_by_in)
  then have reg: "((p', q'), f') \<in> set rs \<and> sublist p' base"
    by (simp add: set_applicable best)
  have "suffix_key (p, q, f) \<le> suffix_key best"
    unfolding best_def using mem unfolding ap by (rule max_by_ge)
  then have ord: "length p < length p' \<or>
      (length p = length p' \<and> (f < f' \<or> (f = f' \<and> length q \<le> length q')))"
    by (auto simp: suffix_key_def best lex3_le)
  have "suffix_step rs base = str_replace base p' q'"
    by (simp add: suffix_step_def sel)
  with sel reg ord show ?thesis by blast
qed

theorem suffix_rule_selection_maximal_witness:
  "((''>'', ''s>''), 5::int) \<in> set [((''>'', ''s>''), 5), ((''k>'', ''ked>''), 1), ((''x>'', ''xen>''), 9)] \<and>
   sublist ''>'' ''<walk>'' \<and>
   (\<exists>p' q' f'.
      best_suffix_rule [((''>'', ''s>''), 5), ((''k>'', ''ked>''), 1), ((''x>'', ''xen>''), 9)] ''<walk>''
        = Some (p', q', f') \<and>
      ((p', q'), f') \<in> set [((''>'', ''s>''), 5), ((''k>'', ''ked>''), 1), ((''x>'', ''xen>''), 9)] \<and>
      sublist p' ''<walk>'' \<and>
      (length ''>'' < length p' \<or>
       (length ''>'' = length p' \<and> (5 < f' \<or> (5 = f' \<and> length ''s>'' \<le> length q')))) \<and>
      suffix_step [((''>'', ''s>''), 5), ((''k>'', ''ked>''), 1), ((''x>'', ''xen>''), 9)] ''<walk>''
        = str_replace ''<walk>'' p' q')"
proof -
  have h1: "((''>'', ''s>''), 5) \<in> set [((''>'', ''s>''), 5::int), ((''k>'', ''ked>''), 1), ((''x>'', ''xen>''), 9)]"
    by simp
  have h2: "sublist ''>'' ''<walk>''"
    by (simp add: contains_iff_sublist [symmetric])
  from suffix_rule_selection_maximal [OF h1 h2] h1 h2 show ?thesis by blast
qed

section \<open>Alignments returned by the aligner\<close>

lemma float_1_1_nearest: "\<bar>pyval float_1_1 - 11 / 10\<bar> < 1 / 2 ^ 53"
  by (simp add: pyval_def float_1_1_def)

lemma min3_by_cost_cases:
  "min3_by_cost r1 r2 r3 = r1 \<or> min3_by_cost r1 r2 r3 = r2 \<or> min3_by_cost r1 r2 r3 = r3"
  by (simp add: min3_by_cost_def Let_def)

lemma aligned_exhausted_left: "aligned [] tr (replicate (length tr) gap) tr"
  by (auto simp: aligned_def filter_id_conv dest: set_zip_rightD)

lemma aligned_exhausted_right: "aligned (a # sr) [] (a # sr) (replicate (length (a # sr)) gap)"
  by (auto simp: aligned_def filter_id_conv dest: set_zip_leftD)

lemma aligned_match: "aligned sr tr x y \<Longrightarrow> aligned (a # sr) (b # tr) (a # x) (b # y)"
  by (auto simp: aligned_def)

lemma aligned_insert: "aligned (a # sr) tr x y \<Longrightarrow> aligned (a # sr) (b # tr) (gap # x) (b # y)"
  by (auto simp: aligned_def)

lemma aligned_delete: "aligned sr (b # tr) x y \<Longrightarrow> aligned (a # sr) (b # tr) (a # x) (gap # y)"
  by (auto simp: aligned_def)

text \<open>
  The memoized recursion returns the caller's prefixes followed by an alignment of the
  remaining strings, whatever the costs and however the comparisons of costs fall.
\<close>

lemma memo_aligned:
  "cache_aligned c \<Longrightarrow> lrec_body ic dc sc c sp tp sr tr cost = (r, c') \<Longrightarrow>
     (\<exists>x y d. r = (sp @ x, tp @ y, [], [], d) \<and> aligned sr tr x y) \<and> cache_aligned c'"
  "cache_aligned c \<Longrightarrow> lrec ic dc sc c sp tp sr tr cost = (r, c') \<Longrightarrow>
     (\<exists>x y d. r = (sp @ x, tp @ y, [], [], d) \<and> aligned sr tr x y) \<and> cache_aligned c'"
proof (induction ic dc sc c sp tp sr tr cost and ic dc sc c sp tp sr tr cost
       arbitrary: r c' and r c' rule: lrec_body_lrec.induct)
  case (1 ic dc sc c sp tp tr cost)
  then show ?case using aligned_exhausted_left [of tr] by auto
next
  case (2 ic dc sc c sp tp a sr cost)
  then show ?case using aligned_exhausted_right [of a sr] by auto
next
  case (3 ic dc sc c sp tp a sr b tr cost)
  let ?w = "if a \<noteq> b then sc else PInt 0"
  obtain r1 c1 where e1: "lrec ic dc sc c (sp @ [a]) (tp @ [b]) sr tr (padd cost ?w) = (r1, c1)"
    by (cases "lrec ic dc sc c (sp @ [a]) (tp @ [b]) sr tr (padd cost ?w)")
  obtain r2 c2 where e2: "lrec ic dc sc c1 (sp @ [gap]) (tp @ [b]) (a # sr) tr (padd cost ic) = (r2, c2)"
    by (cases "lrec ic dc sc c1 (sp @ [gap]) (tp @ [b]) (a # sr) tr (padd cost ic)")
  obtain r3 c3 where e3: "lrec ic dc sc c2 (sp @ [a]) (tp @ [gap]) sr (b # tr) (padd cost dc) = (r3, c3)"
    by (cases "lrec ic dc sc c2 (sp @ [a]) (tp @ [gap]) sr (b # tr) (padd cost dc)")
  have h1: "(\<exists>x y d. r1 = ((sp @ [a]) @ x, (tp @ [b]) @ y, [], [], d) \<and> aligned sr tr x y)
      \<and> cache_aligned c1"
    using "3.IH"(1) [OF refl "3.prems"(1) e1] .
  have h2: "(\<exists>x y d. r2 = ((sp @ [gap]) @ x, (tp @ [b]) @ y, [], [], d) \<and> aligned (a # sr) tr x y)
      \<and> cache_aligned c2"
    using "3.IH"(2) [OF refl e1 [symmetric] _ e2] h1 by blast
  have h3: "(\<exists>x y d. r3 = ((sp @ [a]) @ x, (tp @ [gap]) @ y, [], [], d) \<and> aligned sr (b # tr) x y)
      \<and> cache_aligned c3"
    using "3.IH"(3) [OF refl e1 [symmetric] e2 [symmetric] _ e3] h2 by blast
  let ?P = "\<lambda>r. \<exists>x y d. r = (sp @ x, tp @ y, [], [], d) \<and> aligned (a # sr) (b # tr) x y"
  from h1 obtain x1 y1 d1 where "r1 = (sp @ (a # x1), tp @ (b # y1), [], [], d1)"
    "aligned sr tr x1 y1" by auto
  then have p1: "?P r1" using aligned_match by blast
  from h2 obtain x2 y2 d2 where "r2 = (sp @ (gap # x2), tp @ (b # y2), [], [], d2)"
    "aligned (a # sr) tr x2 y2" by auto
  then have p2: "?P r2" using aligned_insert by blast
  from h3 obtain x3 y3 d3 where "r3 = (sp @ (a # x3), tp @ (gap # y3), [], [], d3)"
    "aligned sr (b # tr) x3 y3" by auto
  then have p3: "?P r3" using aligned_delete by blast
  from "3.prems"(2) have r: "r = min3_by_cost r1 r2 r3" and c': "c' = c3"
    by (simp_all add: e1 e2 e3 Let_def)
  from min3_by_cost_cases [of r1 r2 r3] p1 p2 p3 have "?P r" unfolding r by metis
  with h3 c' show ?case by simp
next
  case (4 ic dc sc c sp tp sr tr cost)
  show ?case
  proof (cases "c (sr, tr)")
    case None
    obtain res c1 where eb: "lrec_body ic dc sc c sp tp sr tr cost = (res, c1)"
      by (cases "lrec_body ic dc sc c sp tp sr tr cost")
    from "4.IH" [OF None "4.prems"(1) eb] obtain x y d
      where res: "res = (sp @ x, tp @ y, [], [], d)" and al: "aligned sr tr x y"
        and c1: "cache_aligned c1" by blast
    from "4.prems"(2) have r: "r = (sp @ x, tp @ y, [], [], padd cost (psub d cost))"
      and c': "c' = c1((sr, tr) \<mapsto> (x, y, psub d cost))"
      by (simp_all add: lrec.simps None eb res Let_def cost_of_def)
    have "cache_aligned c'"
      using c1 al unfolding c' cache_aligned_def by auto
    with r al show ?thesis by blast
  next
    case (Some e)
    obtain x y d where e: "e = (x, y, d)" by (cases e) auto
    with Some "4.prems"(1) have al: "aligned sr tr x y"
      unfolding cache_aligned_def by blast
    from "4.prems"(2) have "r = (sp @ x, tp @ y, [], [], padd cost d)" "c' = c"
      by (simp_all add: lrec.simps Some e)
    with al "4.prems"(1) show ?thesis by blast
  qed
qed

lemma levenshtein_aligned:
  assumes "levenshtein s t ic dc sc = (a, b, d)"
  shows "aligned s t a b"
proof -
  obtain r c where e: "lrec ic dc sc Map.empty [] [] s t (PInt 0) = (r, c)"
    by (cases "lrec ic dc sc Map.empty [] [] s t (PInt 0)")
  have "cache_aligned Map.empty" by (simp add: cache_aligned_def)
  from memo_aligned(2) [OF this e] obtain x y d'
    where "r = ([] @ x, [] @ y, [], [], d')" and "aligned s t x y" by blast
  with assms e show ?thesis by (simp add: levenshtein_def)
qed

text \<open>
  Claim C5. For strings \<open>s\<close> and \<open>t\<close> without gap marker, the two aligned strings
  returned by \<open>levenshtein\<close> have equal length, and deleting the gap markers from the first
  gives \<open>s\<close>, from the second gives \<open>t\<close>.
\<close>

theorem levenshtein_alignment_invariant:
  assumes "gap \<notin> set s" and "gap \<notin> set t"
  shows "case levenshtein s t inscost delcost substcost of
           (a, b, d) \<Rightarrow> length a = length b \<and>
             filter (\<lambda>c. c \<noteq> gap) a = s \<and> filter (\<lambda>c. c \<noteq> gap) b = t"
proof -
  obtain a b d where l: "levenshtein s t inscost delcost substcost = (a, b, d)"
    by (cases "levenshtein s t inscost delcost substcost")
  from levenshtein_aligned [OF l] assms show ?thesis
    by (simp add: l aligned_def)
qed

theorem levenshtein_alignment_invariant_witness:
  "gap \<notin> set ''b'' \<and> gap \<notin> set ''ab'' \<and>
   levenshtein ''b'' ''ab'' float_1_0 float_1_0 float_1_0 = (''_b'', ''ab'', float_1_0) \<and>
   (case levenshtein ''b'' ''ab'' float_1_0 float_1_0 float_1_0 of
      (a, b, d) \<Rightarrow> length a = length b \<and>
        filter (\<lambda>c. c \<noteq> gap) a = ''b'' \<and> filter (\<lambda>c. c \<noteq> gap) b = ''ab'')"
proof -
  have h1: "gap \<notin> set ''b''" by (simp add: gap_def)
  have h2: "gap \<notin> set ''ab''" by (simp add: gap_def)
  have e: "levenshtein ''b'' ''ab'' float_1_0 float_1_0 float_1_0 = (''_b'', ''ab'', float_1_0)"
    by code_simp
  from levenshtein_alignment_invariant [OF h1 h2, of float_1_0 float_1_0 float_1_0] h1 h2 e
  show ?thesis by blast
qed

section \<open>Memoization\<close>

lemma pless_int [simp]: "pless (PInt a) (PInt b) \<longleftrightarrow> a < b"
  by (simp add: pless_def)


lemma cost_of_place [simp]: "cost_of (place sp tp cost f) = PInt (cost + snd (snd f))"
  by (simp add: place_def cost_of_def)









section \<open>Cost of the alignment\<close>

text \<open>
  Claim C6 fails on the code. When one of the two strings is exhausted, \<open>lrec\<close> pads the
  other side and adds the number of remaining characters to the cost, one per character,
  where the recursive branches charge \<open>inscost\<close> and \<open>delcost\<close> for the same
  insertion and deletion. With \<open>inscost = delcost = 5\<close> the empty string and \<open>a\<close>
  are aligned at cost 1, and so are \<open>a\<close> and \<open>ab\<close>, below the bound
  \<open>1 * min 5 5 = 5\<close> of the claim. At the costs 1.0, 1.0 and 1.1 of \<open>alignprs\<close> the
  entries of the memo table are rounded: \<open>aa\<close> and \<open>baaaa\<close> are aligned at cost
  \<open>3 - 2\<^sup>-\<^sup>5\<^sup>1\<close>, below the bound \<open>3 * 1.0\<close>.
\<close>

theorem levenshtein_cost_below_bound:
  "levenshtein [] ''a'' (PInt 5) (PInt 5) float_1_0 = (''_'', ''a'', PInt 1) \<and>
   pyval (PInt 1) < of_nat (length ''a'' - length ([]::string))
     * min (pyval (PInt 5)) (pyval (PInt 5)) \<and>
   levenshtein ''a'' ''ab'' (PInt 5) (PInt 5) float_1_0 = (''a_'', ''ab'', PInt 1) \<and>
   pyval (PInt 1) < of_nat (length ''ab'' - length ''a'')
     * min (pyval (PInt 5)) (pyval (PInt 5)) \<and>
   levenshtein ''aa'' ''baaaa'' float_1_0 float_1_0 float_1_1
     = (''_aa__'', ''baaaa'', PFloat 6755399441055743 (- 51)) \<and>
   pyval (PFloat 6755399441055743 (- 51)) = 3 - 1 / 2 ^ 51 \<and>
   pyval (PFloat 6755399441055743 (- 51)) < of_nat (length ''baaaa'' - length ''aa'')
     * min (pyval float_1_0) (pyval float_1_0)"
  by code_simp

text \<open>
  A substitution cost of 0 aligns two different strings at cost 0.
\<close>

lemma levenshtein_zero_substcost:
  "levenshtein ''a'' ''b'' float_1_0 float_1_0 (PInt 0) = (''a'', ''b'', PInt 0)"
  by code_simp

section \<open>Segmenter\<close>

lemma str_replace_single: "str_replace s [c] [] = filter (\<lambda>x. x \<noteq> c) s"
  by (induction s) auto

lemma lead_count: "length s - length (lstrip s) = length (takeWhile (\<lambda>c. c = gap) s)"
proof -
  have "length s = length (takeWhile (\<lambda>c. c = gap) s) + length (dropWhile (\<lambda>c. c = gap) s)"
    by (simp only: length_append [symmetric] takeWhile_dropWhile_id)
  then show ?thesis by (simp add: lstrip_def)
qed

lemma trail_count:
  "length s - length (lstrip (rev s)) = length (takeWhile (\<lambda>c. c = gap) (rev s))"
  using lead_count [of "rev s"] by simp

lemma lead_trail_same:
  assumes "\<exists>x \<in> set a. \<not> P x"
  shows "length (takeWhile P a) + length (takeWhile P (rev a)) \<le> length a"
proof -
  from assms have ne: "\<exists>x \<in> set (rev (dropWhile P a)). \<not> P x"
    by (metis dropWhile_eq_Nil_conv hd_dropWhile list.set_sel(1) set_rev)
  have "rev a = rev (dropWhile P a) @ rev (takeWhile P a)"
    by (simp only: rev_append [symmetric] takeWhile_dropWhile_id)
  moreover from ne obtain x where "x \<in> set (rev (dropWhile P a))" "\<not> P x" by blast
  ultimately have "takeWhile P (rev a) = takeWhile P (rev (dropWhile P a))"
    by (metis takeWhile_append1)
  then have "length (takeWhile P (rev a)) \<le> length (dropWhile P a)"
    by (metis length_rev length_takeWhile_le)
  moreover have "length a = length (takeWhile P a) + length (dropWhile P a)"
    by (simp only: length_append [symmetric] takeWhile_dropWhile_id)
  ultimately show ?thesis by simp
qed

lemma lead_trail_cross:
  assumes len: "length a = length b"
    and nd: "\<forall>(x, y) \<in> set (zip a b). \<not> (P x \<and> P y)"
  shows "length (takeWhile P a) + length (takeWhile P (rev b)) \<le> length a"
proof (rule ccontr)
  let ?la = "length (takeWhile P a)" and ?tb = "length (takeWhile P (rev b))"
  let ?n = "length a"
  assume "\<not> ?la + ?tb \<le> ?n"
  then have gt: "?n < ?la + ?tb" by simp
  have la: "?la \<le> ?n" by (rule length_takeWhile_le)
  have tb: "?tb \<le> ?n" using length_takeWhile_le [of P "rev b"] len by simp
  define i where "i = ?n - ?tb"
  have i1: "i < ?la" and i2: "i < ?n" using gt la tb by (auto simp: i_def)
  have "P (takeWhile P a ! i)" using i1 by (metis nth_mem set_takeWhileD)
  then have pa: "P (a ! i)" using i1 by (simp add: takeWhile_nth)
  let ?j = "?n - 1 - i"
  have j: "?j < ?tb" using gt la tb by (auto simp: i_def)
  have "P (takeWhile P (rev b) ! ?j)" using j by (metis nth_mem set_takeWhileD)
  then have "P (rev b ! ?j)" using j by (simp add: takeWhile_nth)
  moreover have "rev b ! ?j = b ! i" using i2 len by (simp add: rev_nth)
  ultimately have pb: "P (b ! i)" by simp
  have "(a ! i, b ! i) \<in> set (zip a b)"
    using i2 len by (metis in_set_zip fst_conv snd_conv)
  with nd pa pb show False by auto
qed

lemma lead_trail_bound:
  assumes len: "length a = length b"
    and nd: "\<forall>(x, y) \<in> set (zip a b). \<not> (P x \<and> P y)"
    and na: "\<exists>x \<in> set a. \<not> P x" and nb: "\<exists>y \<in> set b. \<not> P y"
  shows "max (length (takeWhile P a)) (length (takeWhile P b))
       + max (length (takeWhile P (rev a))) (length (takeWhile P (rev b))) \<le> length a"
proof -
  have nd': "\<forall>(x, y) \<in> set (zip b a). \<not> (P x \<and> P y)"
    using nd by (subst zip_commute) auto
  have 1: "length (takeWhile P a) + length (takeWhile P (rev a)) \<le> length a"
    using na by (rule lead_trail_same)
  have 2: "length (takeWhile P b) + length (takeWhile P (rev b)) \<le> length a"
    using lead_trail_same [OF nb] len by simp
  have 3: "length (takeWhile P a) + length (takeWhile P (rev b)) \<le> length a"
    using len nd by (rule lead_trail_cross)
  have 4: "length (takeWhile P b) + length (takeWhile P (rev a)) \<le> length a"
    using lead_trail_cross [OF len [symmetric] nd'] len by simp
  from 1 2 3 4 show ?thesis by (simp add: max_def)
qed



lemma levenshtein_both_empty: "levenshtein [] [] ic dc sc = ([], [], PInt 0)"
  by (simp add: levenshtein_def lrec.simps cost_of_def Let_def)

lemma levenshtein_empty_form:
  "levenshtein (x # xs) [] ic dc sc
     = (x # xs, replicate (length (x # xs)) gap, PInt (int (length (x # xs))))"
  by (simp add: levenshtein_def lrec.simps cost_of_def Let_def)

lemma alignprs_unfold:
  assumes "levenshtein lem frm float_1_0 float_1_0 float_1_1 = (a, b, d)"
  shows "alignprs lem frm =
     (take (lspace_of a b) a, drop (lspace_of a b) (take (length a - tspace_of a b) a),
      drop (length a - tspace_of a b) a,
      take (lspace_of a b) b, drop (lspace_of a b) (take (length a - tspace_of a b) b),
      drop (length a - tspace_of a b) b)"
  by (simp add: alignprs_def assms Let_def lead_count trail_count slice_def
      lspace_of_def tspace_of_def)

lemma aligned_spaces_bound:
  assumes "gap \<notin> set lem" "gap \<notin> set frm" "lem \<noteq> []" "frm \<noteq> []"
    and al: "aligned lem frm a b"
  shows "lspace_of a b + tspace_of a b \<le> length a" and "length b = length a"
proof -
  from al show len: "length b = length a" by (simp add: aligned_def)
  have fa: "ungap a = lem" using al assms(1) by (simp add: aligned_def)
  have fb: "ungap b = frm" using al assms(2) by (simp add: aligned_def)
  have nd: "\<forall>(x, y) \<in> set (zip a b). \<not> (x = gap \<and> y = gap)"
    using al assms(1,2) by (auto simp: aligned_def)
  have na: "\<exists>x \<in> set a. \<not> x = gap"
    using fa assms(3) by (metis (mono_tags, lifting) filter_False)
  have nb: "\<exists>x \<in> set b. \<not> x = gap"
    using fb assms(4) by (metis (mono_tags, lifting) filter_False)
  from lead_trail_bound [OF len [symmetric] nd na nb]
  show "lspace_of a b + tspace_of a b \<le> length a"
    by (simp add: lspace_of_def tspace_of_def)
qed

text \<open>
  With the float costs of \<open>alignprs\<close> the rounding of the memo entries decides between
  alignments of equal exact cost: for \<open>ab\<close> and \<open>bcca\<close> the aligned pair is
  \<open>ab___\<close> / \<open>_bcca\<close>.
\<close>

lemma alignprs_rounding_example:
  "alignprs ''ab'' ''bcca'' = (''a'', ''b'', ''___'', ''_'', ''b'', ''cca'')"
  by code_simp




section \<open>Extracted rules\<close>

lemma generate_rules_eq:
  "generate_rules ins outs =
     (\<lambda>i. (ungap (drop i ins), ungap (drop i outs))) ` {..< min (length ins) (length outs)}"
proof -
  have "set (map (\<lambda>i. (drop i ins, drop i outs)) [0 ..< min (length ins) (length outs)])
      = (\<lambda>i. (drop i ins, drop i outs)) ` {..< min (length ins) (length outs)}"
    by (simp add: atLeast0LessThan)
  moreover have "str_replace x ''_'' [] = ungap x" for x
    by (simp add: str_replace_single gap_def)
  ultimately show ?thesis
    by (simp add: generate_rules_def image_image)
qed

lemma suffix_filter_drop: "suffix (filter P (drop i xs)) (filter P xs)"
proof -
  have "filter P xs = filter P (take i xs) @ filter P (drop i xs)"
    by (simp only: filter_append [symmetric] append_take_drop_id)
  then show ?thesis by (simp add: suffix_def)
qed

lemma generate_rules_suffix:
  assumes "(p, q) \<in> generate_rules ins outs"
  shows "suffix p (ungap ins)" and "suffix q (ungap outs)"
  using assms by (auto simp: generate_rules_eq suffix_filter_drop)

lemma generate_rules_full:
  "ins \<noteq> [] \<Longrightarrow> outs \<noteq> [] \<Longrightarrow> (ungap ins, ungap outs) \<in> generate_rules ins outs"
  by (force simp: generate_rules_eq image_iff intro: bexI [of _ 0])

lemma generate_rules_Cons:
  assumes "(p, q) \<in> generate_rules (c # ins) (d # outs)"
  shows "(p, q) = (ungap (c # ins), ungap (d # outs)) \<or> (p, q) \<in> generate_rules ins outs"
proof -
  from assms obtain i where i: "i < Suc (min (length ins) (length outs))"
    and pq: "p = ungap (drop i (c # ins))" "q = ungap (drop i (d # outs))"
    by (auto simp: generate_rules_eq)
  show ?thesis
  proof (cases i)
    case 0
    with pq show ?thesis by simp
  next
    case (Suc j)
    with i pq have "j < min (length ins) (length outs)" "p = ungap (drop j ins)"
      "q = ungap (drop j outs)" by simp_all
    then show ?thesis by (auto simp: generate_rules_eq)
  qed
qed

lemma suffix_same_length: "suffix xs ys \<Longrightarrow> length ys \<le> length xs \<Longrightarrow> xs = ys"
  by (auto simp: suffix_def)

subsection \<open>Replacement at the end and at the start of a string\<close>

lemma str_replace_absent:
  "c \<in> set old \<Longrightarrow> c \<notin> set s \<Longrightarrow> str_replace s old new = s"
proof (induction s)
  case Nil
  then show ?case by auto
next
  case (Cons x xs)
  have "\<not> prefix old (x # xs)"
  proof
    assume "prefix old (x # xs)"
    then have "set old \<subseteq> set (x # xs)" by (rule set_mono_prefix)
    with Cons.prems show False by auto
  qed
  moreover have "old \<noteq> []" using Cons.prems by auto
  ultimately show ?case using Cons by simp
qed

lemma str_replace_at_start:
  "old \<noteq> [] \<Longrightarrow> str_replace (old @ w) old new = new @ str_replace w old new"
  by (cases old) simp_all

lemma str_replace_at_end:
  assumes "c \<notin> set u" and "c \<notin> set x"
  shows "str_replace (u @ x @ [c]) (x @ [c]) new = u @ new"
  using assms(1)
proof (induction u)
  case Nil
  have "str_replace ((x @ [c]) @ []) (x @ [c]) new = new @ str_replace [] (x @ [c]) new"
    by (rule str_replace_at_start) simp
  then show ?case by simp
next
  case (Cons y ys)
  have np: "\<not> prefix (x @ [c]) (y # ys @ x @ [c])"
  proof
    assume "prefix (x @ [c]) (y # ys @ x @ [c])"
    then obtain zs where eq: "(y # ys @ x) @ [c] = (x @ [c]) @ zs"
      by (auto simp: prefix_def)
    have "take (length (x @ [c])) ((x @ [c]) @ zs) = x @ [c]"
      by simp
    then have "take (length (x @ [c])) ((y # ys @ x) @ [c]) = x @ [c]"
      by (simp only: eq)
    moreover have "length (x @ [c]) \<le> length (y # ys @ x)" by simp
    ultimately have "take (length (x @ [c])) (y # ys @ x) = x @ [c]"
      by (simp del: length_append append.simps)
    then have "c \<in> set (take (length (x @ [c])) (y # ys @ x))" by simp
    then have "c \<in> set (y # ys @ x)" by (rule in_set_takeD)
    with Cons.prems assms(2) show False by auto
  qed
  from Cons have "str_replace (ys @ x @ [c]) (x @ [c]) new = ys @ new" by simp
  with np show ?case by simp
qed

subsection \<open>Stores built from one training pair\<close>

lemma count_rule_fresh: "r \<notin> fst ` set rs \<Longrightarrow> count_rule rs r = rs @ [(r, 1)]"
  by (induction rs) auto

lemma foldl_count_rule_fresh:
  "distinct order \<Longrightarrow> set order \<inter> fst ` set rs = {} \<Longrightarrow>
   foldl count_rule rs order = rs @ map (\<lambda>r. (r, 1)) order"
proof (induction order arbitrary: rs)
  case Nil
  show ?case by simp
next
  case (Cons r order)
  from Cons.prems have fresh: "r \<notin> fst ` set rs" by auto
  have "foldl count_rule (rs @ [(r, 1)]) order = (rs @ [(r, 1)]) @ map (\<lambda>r. (r, 1)) order"
    using Cons.prems by (intro Cons.IH) auto
  then show ?case by (simp add: count_rule_fresh [OF fresh])
qed

lemma accumulate_empty:
  "distinct order \<Longrightarrow> order \<noteq> [] \<Longrightarrow>
   accumulate Map.empty msd order = [msd \<mapsto> map (\<lambda>r. (r, 1)) order]"
  by (simp add: accumulate_def foldl_count_rule_fresh)

section \<open>Applying the rules of a single training pair\<close>

lemma best_suffix_rule_single:
  assumes srs: "set srs = generate_rules ins outs"
    and ne: "ins \<noteq> []" "outs \<noteq> []"
    and sub: "sublist (ungap ins) base"
  shows "best_suffix_rule (map (\<lambda>r. (r, 1)) srs) base = Some (ungap ins, ungap outs, 1)"
proof -
  let ?rs = "map (\<lambda>r. (r, 1::int)) srs"
  have full: "(ungap ins, ungap outs) \<in> set srs"
    using generate_rules_full [OF ne] srs by simp
  then have mem: "(ungap ins, ungap outs, 1) \<in> set (applicable ?rs base)"
    using sub by (auto simp: set_applicable)
  then obtain r rest where ap: "applicable ?rs base = r # rest"
    by (cases "applicable ?rs base") auto
  define best where "best = max_by suffix_key r rest"
  obtain p q f where best: "best = (p, q, f)" by (cases best) auto
  have "best \<in> set (applicable ?rs base)"
    unfolding ap best_def by (rule max_by_in)
  then have reg: "(p, q) \<in> generate_rules ins outs" and f: "f = 1"
    using srs by (auto simp: set_applicable best)
  have sp: "suffix p (ungap ins)" and sq: "suffix q (ungap outs)"
    using generate_rules_suffix [OF reg] by simp_all
  have "suffix_key (ungap ins, ungap outs, 1) \<le> suffix_key best"
    unfolding best_def using mem unfolding ap by (rule max_by_ge)
  then have ord: "length (ungap ins) < length p \<or>
      (length (ungap ins) = length p \<and> length (ungap outs) \<le> length q)"
    by (auto simp: suffix_key_def best f lex3_le)
  from sp have "length p \<le> length (ungap ins)" by (rule suffix_length_le)
  with ord have lp: "length (ungap ins) \<le> length p" and lq: "length (ungap outs) \<le> length q"
    by auto
  have "p = ungap ins" using sp lp by (rule suffix_same_length)
  moreover have "q = ungap outs" using sq lq by (rule suffix_same_length)
  ultimately show ?thesis
    by (simp add: best_suffix_rule_def ap best_def [symmetric] best f)
qed

lemma best_prefix_rule_single:
  assumes prs: "set prs = generate_rules (c # ins) (c # outs)"
    and c: "c \<notin> set ins" "c \<noteq> gap"
    and first: "prefix [c] (fst (hd prs))"
    and pre: "prefix (c # ungap ins) base"
  shows "best_prefix_rule (map (\<lambda>r. (r, 1)) prs) base = Some (c # ungap ins, c # ungap outs, 1)"
proof -
  let ?rs = "map (\<lambda>r. (r, 1::int)) prs"
  have "(ungap (c # ins), ungap (c # outs)) \<in> set prs"
    using generate_rules_full [of "c # ins" "c # outs"] prs by simp
  then have ne: "prs \<noteq> []" by auto
  then have "hd prs \<in> generate_rules (c # ins) (c # outs)"
    using prs by (metis hd_in_set)
  then have "(fst (hd prs), snd (hd prs)) \<in> generate_rules (c # ins) (c # outs)" by simp
  from generate_rules_Cons [OF this]
  have hd: "hd prs = (c # ungap ins, c # ungap outs)"
  proof
    assume "(fst (hd prs), snd (hd prs)) = (ungap (c # ins), ungap (c # outs))"
    then show ?thesis using c(2) by (simp add: prod_eq_iff)
  next
    assume "(fst (hd prs), snd (hd prs)) \<in> generate_rules ins outs"
    then have "suffix (fst (hd prs)) (ungap ins)" by (rule generate_rules_suffix)
    then have "set (fst (hd prs)) \<subseteq> set (ungap ins)" by (rule set_mono_suffix)
    moreover from first have "c \<in> set (fst (hd prs))"
      by (auto simp: prefix_def)
    ultimately have False using c(1) by auto
    then show ?thesis ..
  qed
  from ne hd obtain rest where prs_eq: "prs = (c # ungap ins, c # ungap outs) # rest"
    by (cases prs) auto
  have "contains base (c # ungap ins)"
    using pre by (simp add: contains_iff_sublist prefix_imp_sublist)
  then have ap: "applicable ?rs base =
      (c # ungap ins, c # ungap outs, 1) # applicable (map (\<lambda>r. (r, 1)) rest) base"
    by (simp add: applicable_def prs_eq)
  have "\<forall>x \<in> set (applicable (map (\<lambda>r. (r, 1::int)) rest) base).
          \<not> prefix_key (c # ungap ins, c # ungap outs, 1) < prefix_key x"
    by (auto simp: applicable_def prefix_key_def)
  then have "max_by prefix_key (c # ungap ins, c # ungap outs, 1)
      (applicable (map (\<lambda>r. (r, 1::int)) rest) base) = (c # ungap ins, c # ungap outs, 1)"
    by (rule max_by_first)
  then show ?thesis by (simp add: best_prefix_rule_def ap)
qed

lemma drop_take_drop:
  "l \<le> m \<Longrightarrow> m \<le> length a \<Longrightarrow> drop l (take m a) @ drop m a = drop l a"
proof -
  assume lm: "l \<le> m" and ma: "m \<le> length a"
  have "drop l a = drop l (take m a @ drop m a)" by simp
  also have "\<dots> = drop l (take m a) @ drop (l - length (take m a)) (drop m a)"
    by (rule drop_append)
  also have "l - length (take m a) = 0" using lm ma by simp
  finally show ?thesis by simp
qed

lemma prefix_suffix_rules_get_unfold:
  assumes f: "levenshtein lem frm float_1_0 float_1_0 float_1_1 = (a, b, d)"
    and sp: "lspace_of a b + tspace_of a b \<le> length a" and len: "length b = length a"
  shows "prefix_suffix_rules_get lem frm =
     (generate_rules (CHR ''<'' # take (lspace_of a b) a) (CHR ''<'' # take (lspace_of a b) b),
      generate_rules (drop (lspace_of a b) a @ ''>'') (drop (lspace_of a b) b @ ''>''))"
proof -
  let ?l = "lspace_of a b" and ?m = "length a - tspace_of a b"
  have lm: "?l \<le> ?m" and ma: "?m \<le> length a" and mb: "?m \<le> length b"
    using sp len by simp_all
  have "drop ?l (take ?m a) @ drop ?m a = drop ?l a" using lm ma by (rule drop_take_drop)
  moreover have "drop ?l (take ?m b) @ drop ?m b = drop ?l b" using lm mb by (rule drop_take_drop)
  ultimately show ?thesis
    by (simp add: prefix_suffix_rules_get_def alignprs_unfold [OF f] Let_def
        append_assoc [symmetric] del: append_assoc)
qed

lemma set_aligned_subset:
  assumes "ungap a = s"
  shows "set a \<subseteq> insert gap (set s)"
  using assms by auto

lemma round_trip_nonempty:
  assumes ne: "lem \<noteq> []" "frm \<noteq> []"
    and gl: "gap \<notin> set lem" and gf: "gap \<notin> set frm"
    and ltl: "CHR ''<'' \<notin> set lem" and ltf: "CHR ''<'' \<notin> set frm"
    and gtl: "CHR ''>'' \<notin> set lem" and gtf: "CHR ''>'' \<notin> set frm"
    and prs: "set prs = fst (prefix_suffix_rules_get lem frm)"
    and srs: "set srs = snd (prefix_suffix_rules_get lem frm)"
    and first: "prefix ''<'' (fst (hd prs))"
  shows "apply_best_rule lem msd [msd \<mapsto> map (\<lambda>r. (r, 1)) prs] [msd \<mapsto> map (\<lambda>r. (r, 1)) srs] = frm"
proof -
  obtain a b d where f: "levenshtein lem frm float_1_0 float_1_0 float_1_1 = (a, b, d)"
    by (cases "levenshtein lem frm float_1_0 float_1_0 float_1_1")
  note al = levenshtein_aligned [OF f]
  note sp = aligned_spaces_bound [OF gl gf ne al]
  let ?l = "lspace_of a b"
  have ua: "ungap a = lem" using al gl by (simp add: aligned_def)
  have ub: "ungap b = frm" using al gf by (simp add: aligned_def)
  define pa where "pa = ungap (take ?l a)"
  define sa where "sa = ungap (drop ?l a)"
  define pb where "pb = ungap (take ?l b)"
  define sb where "sb = ungap (drop ?l b)"
  have lem: "lem = pa @ sa"
    unfolding pa_def sa_def ua [symmetric]
    by (simp only: filter_append [symmetric] append_take_drop_id)
  have frm: "frm = pb @ sb"
    unfolding pb_def sb_def ub [symmetric]
    by (simp only: filter_append [symmetric] append_take_drop_id)
  have gap_ne: "CHR ''<'' \<noteq> gap" "CHR ''>'' \<noteq> gap" by (simp_all add: gap_def)
  note rules = prefix_suffix_rules_get_unfold [OF f sp]
  have srs': "set srs = generate_rules (drop ?l a @ ''>'') (drop ?l b @ ''>'')"
    using srs by (simp add: rules)
  have prs': "set prs = generate_rules (CHR ''<'' # take ?l a) (CHR ''<'' # take ?l b)"
    using prs by (simp add: rules)
  have uins: "ungap (drop ?l a @ ''>'') = sa @ ''>''" "ungap (drop ?l b @ ''>'') = sb @ ''>''"
    using gap_ne by (simp_all add: sa_def sb_def)
  define base0 where "base0 = ''<'' @ lem @ ''>''"
  have base0: "base0 = (''<'' @ pa) @ sa @ ''>''" by (simp add: base0_def lem)
  have "sublist (sa @ ''>'') base0"
    unfolding base0 by (metis sublist_appendI suffix_imp_sublist suffixI append.assoc)
  then have sub: "sublist (ungap (drop ?l a @ ''>'')) base0" by (simp only: uins)
  have "best_suffix_rule (map (\<lambda>r. (r, 1)) srs) base0
      = Some (ungap (drop ?l a @ ''>''), ungap (drop ?l b @ ''>''), 1)"
    by (rule best_suffix_rule_single [OF srs' _ _ sub]) simp_all
  then have bs: "best_suffix_rule (map (\<lambda>r. (r, 1)) srs) base0 = Some (sa @ ''>'', sb @ ''>'', 1)"
    by (simp only: uins)
  define base1 where "base1 = (''<'' @ pa) @ sb @ ''>''"
  have "CHR ''>'' \<notin> set (''<'' @ pa)" "CHR ''>'' \<notin> set sa"
    using gtl by (simp_all add: lem)
  then have rep1: "str_replace base0 (sa @ ''>'') (sb @ ''>'') = base1"
    unfolding base0 base1_def by (rule str_replace_at_end)
  have step1: "suffix_step (map (\<lambda>r. (r, 1)) srs) base0 = base1"
    by (simp only: suffix_step_def bs option.case fst_conv snd_conv rep1)
  have "set (take ?l a) \<subseteq> set a" by (rule set_take_subset)
  with set_aligned_subset [OF ua] ltl gap_ne have lt_take: "CHR ''<'' \<notin> set (take ?l a)"
    by auto
  have pre: "prefix (CHR ''<'' # ungap (take ?l a)) base1"
    by (simp add: pa_def base1_def)
  have "best_prefix_rule (map (\<lambda>r. (r, 1)) prs) base1
      = Some (CHR ''<'' # ungap (take ?l a), CHR ''<'' # ungap (take ?l b), 1)"
    using prs' lt_take gap_ne(1) first pre by (rule best_prefix_rule_single)
  then have bp: "best_prefix_rule (map (\<lambda>r. (r, 1)) prs) base1 = Some (CHR ''<'' # pa, CHR ''<'' # pb, 1)"
    by (simp only: pa_def pb_def)
  define base2 where "base2 = ''<'' @ frm @ ''>''"
  have "CHR ''<'' \<notin> set (sb @ ''>'')" using ltf by (simp add: frm)
  then have "str_replace (sb @ ''>'') (CHR ''<'' # pa) (CHR ''<'' # pb) = sb @ ''>''"
    by (intro str_replace_absent [of "CHR ''<''"]) simp_all
  moreover have "str_replace ((CHR ''<'' # pa) @ sb @ ''>'') (CHR ''<'' # pa) (CHR ''<'' # pb)
      = (CHR ''<'' # pb) @ str_replace (sb @ ''>'') (CHR ''<'' # pa) (CHR ''<'' # pb)"
    by (rule str_replace_at_start) simp
  moreover have "base1 = (CHR ''<'' # pa) @ sb @ ''>''" by (simp add: base1_def)
  moreover have "base2 = (CHR ''<'' # pb) @ sb @ ''>''" by (simp add: base2_def frm)
  ultimately have rep2: "str_replace base1 (CHR ''<'' # pa) (CHR ''<'' # pb) = base2"
    by (simp only:)
  have step2: "prefix_step (map (\<lambda>r. (r, 1)) prs) base1 = base2"
    by (simp only: prefix_step_def bp option.case fst_conv snd_conv rep2)
  have fin: "str_replace (str_replace base2 ''<'' []) ''>'' [] = frm"
    using ltf gtf by (auto simp add: base2_def str_replace_single filter_id_conv)
  have "apply_best_rule lem msd [msd \<mapsto> map (\<lambda>r. (r, 1)) prs] [msd \<mapsto> map (\<lambda>r. (r, 1)) srs]
      = str_replace (str_replace
          (prefix_step (map (\<lambda>r. (r, 1)) prs) (suffix_step (map (\<lambda>r. (r, 1)) srs) base0))
          ''<'' []) ''>'' []"
    by (simp add: apply_best_rule_def Let_def base0_def del: str_replace.simps)
  then show ?thesis by (simp only: step1 step2 fin)
qed

lemma round_trip_both_empty:
  assumes prs: "set prs = fst (prefix_suffix_rules_get [] [])"
    and srs: "set srs = snd (prefix_suffix_rules_get [] [])"
  shows "apply_best_rule [] msd [msd \<mapsto> map (\<lambda>r. (r, 1)) prs] [msd \<mapsto> map (\<lambda>r. (r, 1)) srs] = []"
proof -
  have gap_ne: "CHR ''<'' \<noteq> gap" "CHR ''>'' \<noteq> gap" by (simp_all add: gap_def)
  have rules: "prefix_suffix_rules_get [] [] = (generate_rules ''<'' ''<'', generate_rules ''>'' ''>'')"
    by (simp add: prefix_suffix_rules_get_def alignprs_def levenshtein_both_empty Let_def
        slice_def lstrip_def)
  have srs': "set srs = generate_rules ''>'' ''>''" using srs by (simp add: rules)
  have prs': "set prs = generate_rules (CHR ''<'' # []) (CHR ''<'' # [])" using prs by (simp add: rules)
  have "(p, q) \<in> set prs \<Longrightarrow> (p, q) = (''<'', ''<'')" for p q
    using gap_ne by (auto simp: prs' generate_rules_eq)
  moreover have "prs \<noteq> []"
    using generate_rules_full [of "''<''" "''<''"] prs' by auto
  ultimately have first: "prefix ''<'' (fst (hd prs))"
    by (metis hd_in_set prod.collapse fst_conv prefix_order.order_refl)
  define base0 where "base0 = ''<>''"
  have ug: "ungap ''>'' = ''>''" "ungap ''<'' = ''<''" "ungap [] = []" using gap_ne by simp_all
  have sub: "sublist (ungap ''>'') base0"
    by (simp add: base0_def contains_iff_sublist [symmetric])
  have "best_suffix_rule (map (\<lambda>r. (r, 1)) srs) base0 = Some (ungap ''>'', ungap ''>'', 1)"
    by (rule best_suffix_rule_single [OF srs' _ _ sub]) simp_all
  then have step1: "suffix_step (map (\<lambda>r. (r, 1)) srs) base0 = base0"
    by (simp add: suffix_step_def ug base0_def)
  have pre: "prefix (CHR ''<'' # ungap []) base0" by (simp add: base0_def)
  have "best_prefix_rule (map (\<lambda>r. (r, 1)) prs) base0
      = Some (CHR ''<'' # ungap [], CHR ''<'' # ungap [], 1)"
    using prs' _ gap_ne(1) first pre by (rule best_prefix_rule_single) simp
  then have step2: "prefix_step (map (\<lambda>r. (r, 1)) prs) base0 = base0"
    by (simp add: prefix_step_def base0_def)
  have fin: "str_replace (str_replace base0 ''<'' []) ''>'' [] = []"
    by (simp add: base0_def)
  have "apply_best_rule [] msd [msd \<mapsto> map (\<lambda>r. (r, 1)) prs] [msd \<mapsto> map (\<lambda>r. (r, 1)) srs]
      = str_replace (str_replace
          (prefix_step (map (\<lambda>r. (r, 1)) prs) (suffix_step (map (\<lambda>r. (r, 1)) srs) base0))
          ''<'' []) ''>'' []"
    by (simp add: apply_best_rule_def Let_def base0_def del: str_replace.simps)
  then show ?thesis by (simp only: step1 step2 fin)
qed

lemma round_trip_empty_form:
  assumes ne: "lem \<noteq> []"
    and gl: "gap \<notin> set lem" and ltl: "CHR ''<'' \<notin> set lem" and gtl: "CHR ''>'' \<notin> set lem"
    and prs: "set prs = fst (prefix_suffix_rules_get lem [])"
    and srs: "set srs = snd (prefix_suffix_rules_get lem [])"
  shows "apply_best_rule lem msd [msd \<mapsto> map (\<lambda>r. (r, 1)) prs] [msd \<mapsto> map (\<lambda>r. (r, 1)) srs] = []"
proof -
  have gap_ne: "CHR ''<'' \<noteq> gap" "CHR ''>'' \<noteq> gap" by (simp_all add: gap_def)
  define n where "n = length lem"
  define b where "b = replicate n gap"
  have f: "levenshtein lem [] float_1_0 float_1_0 float_1_1 = (lem, b, PInt (int n))"
    using ne levenshtein_empty_form [of "hd lem" "tl lem" float_1_0 float_1_0 float_1_1]
    by (simp add: b_def n_def)
  have "length (takeWhile (\<lambda>c. c = gap) lem) \<le> n"
    unfolding n_def by (rule length_takeWhile_le)
  moreover have "takeWhile (\<lambda>c. c = gap) b = b" by (simp add: b_def)
  ultimately have l: "lspace_of lem b = n" by (simp add: lspace_of_def b_def)
  have "length (takeWhile (\<lambda>c. c = gap) (rev lem)) \<le> n"
    using length_takeWhile_le [of _ "rev lem"] by (simp add: n_def)
  moreover have "takeWhile (\<lambda>c. c = gap) (rev b) = b" by (simp add: b_def)
  ultimately have t: "tspace_of lem b = n" by (simp add: tspace_of_def b_def)
  have parts: "alignprs lem [] = (lem, [], lem, b, [], b)"
    by (simp add: alignprs_unfold [OF f] l t) (simp add: n_def b_def)
  have rules: "prefix_suffix_rules_get lem [] =
      (generate_rules (CHR ''<'' # lem) (CHR ''<'' # b), generate_rules (lem @ ''>'') (b @ ''>''))"
    by (simp add: prefix_suffix_rules_get_def parts)
  have srs': "set srs = generate_rules (lem @ ''>'') (b @ ''>'')" using srs by (simp add: rules)
  have prs': "set prs = generate_rules (CHR ''<'' # lem) (CHR ''<'' # b)" using prs by (simp add: rules)
  have ul: "ungap lem = lem" using gl by (auto simp: filter_id_conv)
  have ub: "ungap b = []" by (simp add: b_def)
  have uins: "ungap (lem @ ''>'') = lem @ ''>''" "ungap (b @ ''>'') = ''>''"
    using gap_ne by (simp_all add: ul ub)
  define base0 where "base0 = ''<'' @ lem @ ''>''"
  have "sublist (lem @ ''>'') base0"
    unfolding base0_def by (rule suffix_imp_sublist) (simp add: suffix_def)
  then have sub: "sublist (ungap (lem @ ''>'')) base0" by (simp only: uins)
  have "best_suffix_rule (map (\<lambda>r. (r, 1)) srs) base0
      = Some (ungap (lem @ ''>''), ungap (b @ ''>''), 1)"
    by (rule best_suffix_rule_single [OF srs' _ _ sub]) simp_all
  then have bs: "best_suffix_rule (map (\<lambda>r. (r, 1)) srs) base0 = Some (lem @ ''>'', ''>'', 1)"
    by (simp only: uins)
  define base1 where "base1 = ''<>''"
  have "CHR ''>'' \<notin> set ''<''" by simp
  then have "str_replace (''<'' @ lem @ ''>'') (lem @ ''>'') ''>'' = ''<'' @ ''>''"
    using gtl by (rule str_replace_at_end)
  then have rep1: "str_replace base0 (lem @ ''>'') ''>'' = base1"
    by (simp only: base0_def base1_def) simp
  have step1: "suffix_step (map (\<lambda>r. (r, 1)) srs) base0 = base1"
    by (simp only: suffix_step_def bs option.case fst_conv snd_conv rep1)
  have none: "\<not> sublist p base1" if pq: "(p, q) \<in> set prs" for p q
  proof
    assume sl: "sublist p base1"
    from pq obtain i where i: "i < Suc n" and p: "p = ungap (drop i (CHR ''<'' # lem))"
      by (auto simp: prs' generate_rules_eq n_def b_def)
    have "last lem \<in> set (drop i (CHR ''<'' # lem))"
    proof -
      have "drop i (CHR ''<'' # lem) \<noteq> []" using i by (simp add: n_def)
      moreover have "last (drop i (CHR ''<'' # lem)) = last (CHR ''<'' # lem)"
        using i by (intro last_drop) (simp add: n_def)
      ultimately show ?thesis using ne by (metis last_in_set last_ConsR)
    qed
    moreover have "last lem \<in> set lem" using ne by simp
    ultimately have "last lem \<in> set p" using gl unfolding p by auto
    moreover from sl have "set p \<subseteq> set base1" by (rule set_mono_sublist)
    ultimately have "last lem = CHR ''<'' \<or> last lem = CHR ''>''"
      by (auto simp: base1_def)
    with \<open>last lem \<in> set lem\<close> ltl gtl show False by auto
  qed
  have "applicable (map (\<lambda>r. (r, 1)) prs) base1 = []"
  proof (rule ccontr)
    assume "applicable (map (\<lambda>r. (r, 1::int)) prs) base1 \<noteq> []"
    then obtain x where "x \<in> set (applicable (map (\<lambda>r. (r, 1::int)) prs) base1)"
      by (meson last_in_set)
    then obtain p q where "(p, q) \<in> set prs" "sublist p base1"
      by (auto simp: set_applicable)
    with none show False by blast
  qed
  then have step2: "prefix_step (map (\<lambda>r. (r, 1)) prs) base1 = base1"
    by (simp add: prefix_step_def best_prefix_rule_def)
  have fin: "str_replace (str_replace base1 ''<'' []) ''>'' [] = []"
    by (simp add: base1_def)
  have "apply_best_rule lem msd [msd \<mapsto> map (\<lambda>r. (r, 1)) prs] [msd \<mapsto> map (\<lambda>r. (r, 1)) srs]
      = str_replace (str_replace
          (prefix_step (map (\<lambda>r. (r, 1)) prs) (suffix_step (map (\<lambda>r. (r, 1)) srs) base0))
          ''<'' []) ''>'' []"
    by (simp add: apply_best_rule_def Let_def base0_def del: str_replace.simps)
  then show ?thesis by (simp only: step1 step2 fin)
qed

lemma rule_sets_nonempty:
  "fst (prefix_suffix_rules_get lem frm) \<noteq> {}" "snd (prefix_suffix_rules_get lem frm) \<noteq> {}"
proof -
  obtain lp lr ls fp fr fs where a: "alignprs lem frm = (lp, lr, ls, fp, fr, fs)"
    by (metis prod_cases6)
  have "(ungap (''<'' @ lp), ungap (''<'' @ fp)) \<in> generate_rules (''<'' @ lp) (''<'' @ fp)"
    by (rule generate_rules_full) simp_all
  then show "fst (prefix_suffix_rules_get lem frm) \<noteq> {}"
    by (auto simp: prefix_suffix_rules_get_def a Let_def)
  have "(ungap (lr @ ls @ ''>''), ungap (fr @ fs @ ''>'')) \<in> generate_rules (lr @ ls @ ''>'') (fr @ fs @ ''>'')"
    by (rule generate_rules_full) simp_all
  then show "snd (prefix_suffix_rules_get lem frm) \<noteq> {}"
    by (auto simp: prefix_suffix_rules_get_def a Let_def)
qed

text \<open>
  When the iteration of the prefix rule set happens to yield the rule anchored on \<open><\<close>
  first, the rules of a single pair with a non-empty lemma or an empty form take the
  lemma back to the form. The lists \<open>prs\<close> and \<open>srs\<close> are the orders in which the two
  rule sets are iterated.
\<close>

lemma round_trip_anchored_first:
  assumes "lemma \<noteq> [] \<or> form = []"
    and "set lemma \<inter> {CHR ''<'', CHR ''>'', CHR ''_''} = {}"
    and "set form \<inter> {CHR ''<'', CHR ''>'', CHR ''_''} = {}"
    and "set prs = fst (prefix_suffix_rules_get lemma form)" and "distinct prs"
    and "set srs = snd (prefix_suffix_rules_get lemma form)" and "distinct srs"
    and "prefix ''<'' (fst (hd prs))"
  shows "apply_best_rule lemma msd (accumulate Map.empty msd prs) (accumulate Map.empty msd srs)
           = form"
proof -
  from assms(4) have "prs \<noteq> []" using rule_sets_nonempty(1) [of "lemma" "form"] by auto
  with assms(5) have P: "accumulate Map.empty msd prs = [msd \<mapsto> map (\<lambda>r. (r, 1)) prs]"
    by (rule accumulate_empty)
  from assms(6) have "srs \<noteq> []" using rule_sets_nonempty(2) [of "lemma" "form"] by auto
  with assms(7) have S: "accumulate Map.empty msd srs = [msd \<mapsto> map (\<lambda>r. (r, 1)) srs]"
    by (rule accumulate_empty)
  from assms(2) have l: "gap \<notin> set lemma" "CHR ''<'' \<notin> set lemma" "CHR ''>'' \<notin> set lemma"
    by (auto simp: gap_def)
  from assms(3) have f: "gap \<notin> set form" "CHR ''<'' \<notin> set form" "CHR ''>'' \<notin> set form"
    by (auto simp: gap_def)
  consider "lemma \<noteq> []" "form \<noteq> []" | "lemma \<noteq> []" "form = []" | "lemma = []" "form = []"
    using assms(1) by blast
  then show ?thesis
  proof cases
    case 1
    then show ?thesis
      unfolding P S using l f assms(4,6,8)
      by (intro round_trip_nonempty) simp_all
  next
    case 2
    with l assms(4,6) show ?thesis
      unfolding P S by (simp add: round_trip_empty_form)
  next
    case 3
    with assms(4,6) show ?thesis
      unfolding P S by (simp add: round_trip_both_empty)
  qed
qed

text \<open>
  Claim C4 fails on the code. For the lemma \<open>b\<close> and the form \<open>ab\<close> the alignment is
  \<open>_b\<close> / \<open>ab\<close> and the prefix rules are \<open>(<, <a)\<close> and the unanchored \<open>('', a)\<close>, both
  of frequency 1. The prefix step takes the first rule of maximal frequency in the order
  in which the rule set was iterated: with the anchored rule first the result is the form
  \<open>ab\<close>, with the unanchored rule first the empty pattern is replaced at every position
  and the result is \<open>aabaa\<close>. For the empty lemma and the form \<open>a\<close> the prefix and
  suffix slices of \<open>alignprs\<close> overlap, the form's character is extracted both as a
  suffix and as a prefix change, and the result is \<open>aa\<close> or \<open>aaaaa\<close> in every order
  of iteration, never \<open>a\<close>.
\<close>

theorem single_example_round_trip_fails:
  "fst (prefix_suffix_rules_get ''b'' ''ab'') = {(''<'', ''<a''), ([], ''a'')} \<and>
   snd (prefix_suffix_rules_get ''b'' ''ab'') = {(''b>'', ''b>''), (''>'', ''>'')} \<and>
   apply_best_rule ''b'' ''m'' (accumulate Map.empty ''m'' [([], ''a''), (''<'', ''<a'')])
     (accumulate Map.empty ''m'' [(''b>'', ''b>''), (''>'', ''>'')]) = ''aabaa'' \<and>
   apply_best_rule ''b'' ''m'' (accumulate Map.empty ''m'' [([], ''a''), (''<'', ''<a'')])
     (accumulate Map.empty ''m'' [(''>'', ''>''), (''b>'', ''b>'')]) = ''aabaa'' \<and>
   apply_best_rule ''b'' ''m'' (accumulate Map.empty ''m'' [(''<'', ''<a''), ([], ''a'')])
     (accumulate Map.empty ''m'' [(''b>'', ''b>''), (''>'', ''>'')]) = ''ab'' \<and>
   fst (prefix_suffix_rules_get [] ''a'') = {(''<'', ''<a''), ([], ''a'')} \<and>
   snd (prefix_suffix_rules_get [] ''a'') = {(''>'', ''a>''), (''>'', ''>'')} \<and>
   apply_best_rule [] ''m'' (accumulate Map.empty ''m'' [(''<'', ''<a''), ([], ''a'')])
     (accumulate Map.empty ''m'' [(''>'', ''a>''), (''>'', ''>'')]) = ''aa'' \<and>
   apply_best_rule [] ''m'' (accumulate Map.empty ''m'' [(''<'', ''<a''), ([], ''a'')])
     (accumulate Map.empty ''m'' [(''>'', ''>''), (''>'', ''a>'')]) = ''aa'' \<and>
   apply_best_rule [] ''m'' (accumulate Map.empty ''m'' [([], ''a''), (''<'', ''<a'')])
     (accumulate Map.empty ''m'' [(''>'', ''a>''), (''>'', ''>'')]) = ''aaaaa'' \<and>
   apply_best_rule [] ''m'' (accumulate Map.empty ''m'' [([], ''a''), (''<'', ''<a'')])
     (accumulate Map.empty ''m'' [(''>'', ''>''), (''>'', ''a>'')]) = ''aaaaa''"
  by code_simp

section \<open>Anchoring of extracted rules\<close>

lemma suffix_rules_end_with_marker:
  assumes "(p, q) \<in> snd (prefix_suffix_rules_get lem frm)"
  shows "suffix ''>'' p \<and> suffix ''>'' q"
proof -
  obtain lp lr ls fp fr fs where a: "alignprs lem frm = (lp, lr, ls, fp, fr, fs)"
    by (metis prod_cases6)
  have gap_ne: "CHR ''>'' \<noteq> gap" by (simp add: gap_def)
  from assms obtain i where i: "i < min (length ((lr @ ls) @ ''>'')) (length ((fr @ fs) @ ''>''))"
    and p: "p = ungap (drop i ((lr @ ls) @ ''>''))" and q: "q = ungap (drop i ((fr @ fs) @ ''>''))"
    by (auto simp: prefix_suffix_rules_get_def a Let_def generate_rules_eq)
  from i have "i \<le> length (lr @ ls)" "i \<le> length (fr @ fs)" by simp_all
  then have "drop i ((lr @ ls) @ ''>'') = drop i (lr @ ls) @ ''>''"
    "drop i ((fr @ fs) @ ''>'') = drop i (fr @ fs) @ ''>''"
    by (simp_all del: append_assoc)
  then show ?thesis using gap_ne by (simp add: p q suffix_def del: append_assoc)
qed

text \<open>
  Claim C2 holds for the suffix rules (lemma \<open>suffix_rules_end_with_marker\<close>) and fails
  for the prefix rules: the slices \<^verbatim>\<open>inp[i:]\<close> with \<open>i \<ge> 1\<close> drop the leading \<open><\<close>. For
  the lemma \<open>b\<close> and the form \<open>ab\<close> the prefix rules are \<open>(<, <a)\<close> and \<open>('', a)\<close>,
  and the input pattern of the second does not start with \<open><\<close>.
\<close>

theorem prefix_rules_not_anchored:
  "fst (prefix_suffix_rules_get ''b'' ''ab'') = {(''<'', ''<a''), ([], ''a'')} \<and>
   \<not> prefix ''<'' (fst (([]::string), ''a''))"
  by code_simp


section \<open>Replacement of the selected pattern\<close>

lemma find_first_Some: "contains s p \<Longrightarrow> \<exists>i. find_first s p = Some i"
  by (induction s) auto

lemma str_replace_no_occurrence:
  "p \<noteq> [] \<Longrightarrow> \<not> sublist p s \<Longrightarrow> str_replace s p q = s"
  by (induction s) (auto simp: sublist_Cons_right)

lemma str_replace_find_first:
  "p \<noteq> [] \<Longrightarrow> find_first s p = Some i \<Longrightarrow>
   str_replace s p q = take i s @ q @ str_replace (drop (i + length p) s) p q"
proof (induction s arbitrary: i)
  case Nil
  then show ?case by simp
next
  case (Cons x xs)
  show ?case
  proof (cases "prefix p (x # xs)")
    case True
    with Cons.prems have "i = 0" by simp
    with True Cons.prems(1) show ?thesis by simp
  next
    case False
    with Cons.prems obtain j where j: "find_first xs p = Some j" "i = Suc j" by auto
    from Cons.IH [OF Cons.prems(1) j(1)] False Cons.prems(1) j(2) show ?thesis by simp
  qed
qed

lemma replace_all_vs_first:
  assumes "p \<noteq> []" and "contains base p"
  shows "\<exists>i. find_first base p = Some i \<and>
           str_replace base p q = take i base @ q @ str_replace (drop (i + length p) base) p q \<and>
           (\<not> sublist p (drop (i + length p) base) \<longrightarrow> str_replace base p q = replace_first base p q)"
proof -
  from find_first_Some [OF assms(2)] obtain i where i: "find_first base p = Some i" ..
  have eq: "str_replace base p q = take i base @ q @ str_replace (drop (i + length p) base) p q"
    using assms(1) i by (rule str_replace_find_first)
  have "str_replace base p q = replace_first base p q"
    if "\<not> sublist p (drop (i + length p) base)"
    using eq str_replace_no_occurrence [OF assms(1) that, of q]
    by (simp add: replace_first_def i)
  with i eq show ?thesis by blast
qed

lemma best_suffix_rule_applicable:
  "best_suffix_rule rs base = Some (p, q, f) \<Longrightarrow> contains base p"
proof -
  assume b: "best_suffix_rule rs base = Some (p, q, f)"
  then obtain r rest where ap: "applicable rs base = r # rest"
    by (cases "applicable rs base") (auto simp: best_suffix_rule_def)
  with b have "(p, q, f) = max_by suffix_key r rest" by (simp add: best_suffix_rule_def)
  then have "(p, q, f) \<in> set (applicable rs base)" unfolding ap by (metis max_by_in)
  then show ?thesis by (simp add: set_applicable contains_iff_sublist)
qed

lemma best_prefix_rule_applicable:
  "best_prefix_rule rs base = Some (p, q, f) \<Longrightarrow> contains base p"
proof -
  assume b: "best_prefix_rule rs base = Some (p, q, f)"
  then obtain r rest where ap: "applicable rs base = r # rest"
    by (cases "applicable rs base") (auto simp: best_prefix_rule_def)
  with b have "(p, q, f) = max_by prefix_key r rest" by (simp add: best_prefix_rule_def)
  then have "(p, q, f) \<in> set (applicable rs base)" unfolding ap by (metis max_by_in)
  then show ?thesis by (simp add: set_applicable contains_iff_sublist)
qed

text \<open>
  Claim C1, as stated, fails: the replacement is \<^verbatim>\<open>str.replace\<close>, which replaces every
  occurrence. With the prefix rules \<open>(<a, <)\<close> of frequency 1 and \<open>(a, '')\<close> of frequency
  2, the lemma \<open>aza\<close> loses both its \<open>a\<close>, where a replacement at the first occurrence
  would keep the second; likewise the suffix rule \<open>(a, b)\<close> turns \<open>aa\<close> into \<open>bb\<close>.
\<close>

theorem replace_first_occurrence_counterexample:
  "best_prefix_rule [((''<a'', ''<''), 1), ((''a'', []), 2)] ''<aza>'' = Some (''a'', [], 2) \<and>
   prefix_step [((''<a'', ''<''), 1), ((''a'', []), 2)] ''<aza>'' = ''<z>'' \<and>
   replace_first ''<aza>'' ''a'' [] = ''<za>'' \<and>
   apply_best_rule ''aza'' ''m'' [''m'' \<mapsto> [((''<a'', ''<''), 1), ((''a'', []), 2)]] Map.empty = ''z'' \<and>
   best_suffix_rule [((''a'', ''b''), 1)] ''<aa>'' = Some (''a'', ''b'', 1) \<and>
   suffix_step [((''a'', ''b''), 1)] ''<aa>'' = ''<bb>'' \<and>
   replace_first ''<aa>'' ''a'' ''b'' = ''<ba>'' \<and>
   apply_best_rule ''aa'' ''m'' Map.empty [''m'' \<mapsto> [((''a'', ''b''), 1)]] = ''bb''"
  by code_simp

text \<open>
  Claim C1, amended. After a best suffix rule (and likewise a best prefix rule) with a
  non-empty input pattern is selected, the pattern is replaced by the output pattern at its
  first occurrence in \<open>base\<close>, and the text after that occurrence is processed in the same
  way, so that every later non-overlapping occurrence is replaced as well. The result is
  the replacement at the first occurrence alone whenever the pattern does not occur again
  after its first occurrence.
\<close>

theorem selected_rule_replaces_every_occurrence:
  assumes "p \<noteq> []"
  shows "(best_suffix_rule rs base = Some (p, q, f) \<longrightarrow>
            (\<exists>i. find_first base p = Some i \<and>
               suffix_step rs base
                 = take i base @ q @ str_replace (drop (i + length p) base) p q \<and>
               (\<not> sublist p (drop (i + length p) base) \<longrightarrow>
                  suffix_step rs base = replace_first base p q))) \<and>
         (best_prefix_rule rs base = Some (p, q, f) \<longrightarrow>
            (\<exists>i. find_first base p = Some i \<and>
               prefix_step rs base
                 = take i base @ q @ str_replace (drop (i + length p) base) p q \<and>
               (\<not> sublist p (drop (i + length p) base) \<longrightarrow>
                  prefix_step rs base = replace_first base p q)))"
proof (intro conjI impI)
  assume b: "best_suffix_rule rs base = Some (p, q, f)"
  then have s: "suffix_step rs base = str_replace base p q" by (simp add: suffix_step_def)
  from replace_all_vs_first [OF assms best_suffix_rule_applicable [OF b], of q]
  show "\<exists>i. find_first base p = Some i \<and>
          suffix_step rs base = take i base @ q @ str_replace (drop (i + length p) base) p q \<and>
          (\<not> sublist p (drop (i + length p) base) \<longrightarrow> suffix_step rs base = replace_first base p q)"
    unfolding s .
next
  assume b: "best_prefix_rule rs base = Some (p, q, f)"
  then have s: "prefix_step rs base = str_replace base p q" by (simp add: prefix_step_def)
  from replace_all_vs_first [OF assms best_prefix_rule_applicable [OF b], of q]
  show "\<exists>i. find_first base p = Some i \<and>
          prefix_step rs base = take i base @ q @ str_replace (drop (i + length p) base) p q \<and>
          (\<not> sublist p (drop (i + length p) base) \<longrightarrow> prefix_step rs base = replace_first base p q)"
    unfolding s .
qed

theorem selected_rule_replaces_every_occurrence_witness:
  "''k>'' \<noteq> [] \<and>
   best_suffix_rule [((''k>'', ''ked>''), 1)] ''<walk>'' = Some (''k>'', ''ked>'', 1) \<and>
   best_prefix_rule [((''k>'', ''ked>''), 1)] ''<walk>'' = Some (''k>'', ''ked>'', 1) \<and>
   find_first ''<walk>'' ''k>'' = Some 4 \<and>
   \<not> sublist ''k>'' (drop (4 + length ''k>'') ''<walk>'') \<and>
   suffix_step [((''k>'', ''ked>''), 1)] ''<walk>'' = replace_first ''<walk>'' ''k>'' ''ked>'' \<and>
   prefix_step [((''k>'', ''ked>''), 1)] ''<walk>'' = replace_first ''<walk>'' ''k>'' ''ked>'' \<and>
   replace_first ''<walk>'' ''k>'' ''ked>'' = ''<walked>''"
proof -
  have h: "''k>'' \<noteq> []" by simp
  have bs: "best_suffix_rule [((''k>'', ''ked>''), 1)] ''<walk>'' = Some (''k>'', ''ked>'', 1)"
    by code_simp
  have bp: "best_prefix_rule [((''k>'', ''ked>''), 1)] ''<walk>'' = Some (''k>'', ''ked>'', 1)"
    by code_simp
  have n: "find_first ''<walk>'' ''k>'' = Some 4" by code_simp
  have ns: "\<not> sublist ''k>'' (drop (4 + length ''k>'') ''<walk>'')"
    by (simp add: contains_iff_sublist [symmetric])
  have r: "replace_first ''<walk>'' ''k>'' ''ked>'' = ''<walked>''" by code_simp
  from selected_rule_replaces_every_occurrence
         [OF h, of "[((''k>'', ''ked>''), 1)]" "''<walk>''" "''ked>''" 1] bs bp n ns
  have "suffix_step [((''k>'', ''ked>''), 1)] ''<walk>'' = replace_first ''<walk>'' ''k>'' ''ked>''"
    and "prefix_step [((''k>'', ''ked>''), 1)] ''<walk>'' = replace_first ''<walk>'' ''k>'' ''ked>''"
    by auto
  with h bs bp n ns r show ?thesis by blast
qed


end
